theory Spec2Isabelle
  imports Main "HOL-Library.Word" "HOL-Library.Signed_Division" "HOL-Library.AList"
begin

unbundle bit_operations_syntax

section \<open>Machine types\<close>

text \<open>
  Go's \<open>byte\<close>, \<open>int16\<close>/\<open>uint16\<close> and \<open>int32\<close>/\<open>uint32\<close> are words of the
  given width: addition wraps, \<open>sint\<close> reads a word as two's complement. Go's \<open>int\<close>
  (lengths, indices, sample rates) is modelled by \<open>nat\<close> and \<open>int\<close> without a width:
  no slice of this program comes near \<open>2 ^ 63\<close> elements.
\<close>

type_synonym byte = "8 word"
type_synonym int16 = "16 word"
type_synonym int32 = "32 word"

section \<open>pkg/audio: channel conversion\<close>

text \<open>
  \<open>MonoToStereo\<close> walks the input two bytes (one sample) at a time and writes the
  sample to the left and to the right channel. \<open>numSamples = len(mono) / 2\<close>, so a
  trailing odd byte is not copied.
\<close>

fun MonoToStereo :: "byte list \<Rightarrow> byte list" where
  "MonoToStereo (s0 # s1 # rest) = s0 # s1 # s0 # s1 # MonoToStereo rest"
| "MonoToStereo _ = []"

text \<open>
  The only stereo-to-mono averaging of the repository is the one in the speech-to-text
  client's \<open>SendAudio\<close>, which is written in three loops: bytes to \<open>int16\<close> samples
  (\<open>int16(pcm[i*2]) | int16(pcm[i*2+1])<<8\<close>), the average of each left/right pair
  computed in \<open>int32\<close> with Go's truncating division
  (\<open>int16((left + right) / 2)\<close>), and samples back to bytes
  (\<open>byte(s)\<close>, \<open>byte(s >> 8)\<close>).
\<close>

fun bytesToSamples :: "byte list \<Rightarrow> int16 list" where
  "bytesToSamples (lo # hi # pcmData) =
     ((ucast lo :: int16) OR push_bit 8 (ucast hi :: int16)) # bytesToSamples pcmData"
| "bytesToSamples _ = []"

definition average :: "int16 \<Rightarrow> int16 \<Rightarrow> int16" where
  "average l r =
     (let left = (scast l :: int32); right = (scast r :: int32)
      in ucast (word_of_int (sint (left + right) sdiv 2) :: int32))"

fun averageChannels :: "int16 list \<Rightarrow> int16 list" where
  "averageChannels (l # r # samples) = average l r # averageChannels samples"
| "averageChannels _ = []"

fun samplesToBytes :: "int16 list \<Rightarrow> byte list" where
  "samplesToBytes [] = []"
| "samplesToBytes (s # resampled) =
     (ucast s :: byte) # (ucast (signed_drop_bit 8 s) :: byte) # samplesToBytes resampled"

section \<open>RTP send state\<close>

record RTPPacket =
  Version :: nat
  Padding :: bool
  Extension :: bool
  Marker :: bool
  PayloadType :: byte
  SequenceNumber :: "16 word"
  Timestamp :: "32 word"
  SSRC :: "32 word"
  Payload :: "byte list"

text \<open>
  The programmatic client. Of the struct's fields the model keeps the ones the send and
  the disconnect path read or write: whether the socket, the media session and the audio
  track are set (non-nil), the \<open>connected\<close> flag, whether the \<open>done\<close> channel has been
  closed, the RTP counters, and how often \<open>Close\<close> has been called on the media session
  and on the socket.
\<close>

record Client =
  conn :: bool
  peerConnection :: bool
  audioTrack :: bool
  connected :: bool
  doneClosed :: bool
  rtpSeqNum :: "16 word"
  rtpTimestamp :: "32 word"
  pcCloseCalls :: nat
  connCloseCalls :: nat

definition NewClient :: Client where
  "NewClient = \<lparr>conn = False, peerConnection = False, audioTrack = False,
     connected = False, doneClosed = False, rtpSeqNum = 0, rtpTimestamp = 0,
     pcCloseCalls = 0, connCloseCalls = 0\<rparr>"

datatype client_error = TrackNotInitialized | TrackWriteFailed | CloseOfClosedChannel

text \<open>
  \<open>WriteOpus\<close>: without a track it fails before touching the counters. Otherwise it
  reads the two counters, advances them (under \<open>rtpMu\<close>), builds the packet from the
  values read and hands it to the track. \<open>written\<close> is what the media stack's
  \<open>WriteRTP\<close> answers for this packet; the counters have advanced either way.
\<close>

definition WriteOpus :: "bool \<Rightarrow> byte list \<Rightarrow> Client \<Rightarrow> (client_error + RTPPacket) \<times> Client" where
  "WriteOpus written opusData c =
     (if \<not> audioTrack c then (Inl TrackNotInitialized, c)
      else
        let seqNum = rtpSeqNum c;
            timestamp = rtpTimestamp c;
            c' = c\<lparr>rtpSeqNum := rtpSeqNum c + 1, rtpTimestamp := rtpTimestamp c + 960\<rparr>;
            packet = \<lparr>Version = 2, Padding = False, Extension = False, Marker = False,
              PayloadType = 111, SequenceNumber = seqNum, Timestamp = timestamp,
              SSRC = 0x12345678, Payload = opusData\<rparr>
        in (if written then Inr packet else Inl TrackWriteFailed, c'))"

text \<open>
  A run of \<open>WriteOpus\<close> calls on one client, each with its payload and the track's
  answer; the result lists the packets of the calls that returned no error, in order.
\<close>

fun WriteOpus_run :: "(bool \<times> byte list) list \<Rightarrow> Client \<Rightarrow> RTPPacket list \<times> Client" where
  "WriteOpus_run [] c = ([], c)"
| "WriteOpus_run ((written, opusData) # calls) c =
     (case WriteOpus written opusData c of
        (Inl _, c') \<Rightarrow> WriteOpus_run calls c'
      | (Inr packet, c') \<Rightarrow>
          (case WriteOpus_run calls c' of (packets, c'') \<Rightarrow> (packet # packets, c'')))"

text \<open>
  \<open>Disconnect\<close>: nothing happens unless \<open>connected\<close>. Otherwise it closes the
  \<open>done\<close> channel (closing a closed channel panics in Go), closes the media session and
  the socket when they are set, and clears \<open>connected\<close>.
\<close>

definition Disconnect :: "Client \<Rightarrow> client_error + Client" where
  "Disconnect c =
     (if \<not> connected c then Inr c
      else if doneClosed c then Inl CloseOfClosedChannel
      else
        let c1 = c\<lparr>doneClosed := True\<rparr>;
            c2 = (if peerConnection c1 then c1\<lparr>pcCloseCalls := pcCloseCalls c1 + 1\<rparr> else c1);
            c3 = (if conn c2 then c2\<lparr>connCloseCalls := connCloseCalls c2 + 1\<rparr> else c2)
        in Inr (c3\<lparr>connected := False\<rparr>))"

text \<open>
  The packetizer of \<open>pkg/audio\<close>: the twelve header bytes in network order, the
  payload, and then the two counters advance.
\<close>

record RTPPacketizer =
  ssrc :: "32 word"
  seqNum :: "16 word"
  timestamp :: "32 word"
  sampleRate :: "32 word"
  frameSize :: "32 word"

definition NewRTPPacketizer :: "32 word \<Rightarrow> int \<Rightarrow> int \<Rightarrow> RTPPacketizer" where
  "NewRTPPacketizer s rate frame =
     \<lparr>ssrc = s, seqNum = 0, timestamp = 0, sampleRate = word_of_int rate,
      frameSize = word_of_int frame\<rparr>"

definition Packetize :: "byte list \<Rightarrow> RTPPacketizer \<Rightarrow> byte list \<times> RTPPacketizer" where
  "Packetize opusData p =
     ([0x80, 111,
       ucast (drop_bit 8 (seqNum p)), ucast (seqNum p),
       ucast (drop_bit 24 (timestamp p)), ucast (drop_bit 16 (timestamp p)),
       ucast (drop_bit 8 (timestamp p)), ucast (timestamp p),
       ucast (drop_bit 24 (ssrc p)), ucast (drop_bit 16 (ssrc p)),
       ucast (drop_bit 8 (ssrc p)), ucast (ssrc p)] @ opusData,
      p\<lparr>seqNum := seqNum p + 1, timestamp := timestamp p + frameSize p\<rparr>)"

section \<open>binary64 arithmetic\<close>

text \<open>
  \<open>ResampleMono\<close> computes its positions in \<open>float64\<close>. A finite \<open>float64\<close> is
  modelled as a pair of integers, mantissa and exponent, standing for
  \<open>mant * 2 ^ expo\<close>; every operation computes the exact result on integers and rounds
  it to 53 significant bits, to nearest and ties to even, as IEEE 754 binary64 does.
  The exponent has no bound here: the values \<open>ResampleMono\<close> computes from slice lengths
  and positive \<open>int\<close> sample rates stay inside binary64's normal range, and the
  infinities and NaN of a division by a zero rate are kept out by the rate check of the
  model below. The operations are rounded one by one (no fused multiply-add).
\<close>

datatype float64 = F64 (mant: int) (expo: int)

function bitLen :: "int \<Rightarrow> nat" where
  "bitLen m = (if m \<le> 0 then 0 else Suc (bitLen (m div 2)))"
  by pat_completeness auto
termination
  by (relation "measure nat") auto

declare bitLen.simps [simp del]

definition round53 :: "int \<Rightarrow> int \<Rightarrow> float64" where
  "round53 m e =
     (let n = bitLen \<bar>m\<bar> in
      if n \<le> 53 then F64 m e
      else
        let k = n - 53;
            q = \<bar>m\<bar> div 2 ^ k;
            r = \<bar>m\<bar> mod 2 ^ k;
            half = 2 ^ (k - 1);
            q' = (if r > half \<or> (r = half \<and> odd q) then q + 1 else q)
        in F64 (sgn m * q') (e + int k))"

definition f64_of_int :: "int \<Rightarrow> float64" where
  "f64_of_int n = round53 n 0"

definition fmul :: "float64 \<Rightarrow> float64 \<Rightarrow> float64" where
  "fmul a b = round53 (mant a * mant b) (expo a + expo b)"

definition fadd :: "float64 \<Rightarrow> float64 \<Rightarrow> float64" where
  "fadd a b =
     (let e = min (expo a) (expo b)
      in round53 (mant a * 2 ^ nat (expo a - e) + mant b * 2 ^ nat (expo b - e)) e)"

definition fsub :: "float64 \<Rightarrow> float64 \<Rightarrow> float64" where
  "fsub a b =
     (let e = min (expo a) (expo b)
      in round53 (mant a * 2 ^ nat (expo a - e) - mant b * 2 ^ nat (expo b - e)) e)"

text \<open>
  Division of \<open>a\<close> by a non-zero \<open>b\<close>: the quotient of the mantissas is computed to
  more than 55 bits, a sticky bit records whether the division left a remainder, and the
  result is rounded once.
\<close>

definition fdiv :: "float64 \<Rightarrow> float64 \<Rightarrow> float64" where
  "fdiv a b =
     (let s = 55 + bitLen \<bar>mant b\<bar>;
          n = \<bar>mant a\<bar> * 2 ^ s;
          q = n div \<bar>mant b\<bar>;
          sticky = (if n mod \<bar>mant b\<bar> = 0 then 0 else 1)
      in round53 (sgn (mant a) * sgn (mant b) * (2 * q + sticky))
           (expo a - expo b - int s - 1))"

text \<open>Go's conversion \<open>int(f)\<close> discards the fraction (truncation towards zero).\<close>

definition f64_trunc :: "float64 \<Rightarrow> int" where
  "f64_trunc a =
     (if 0 \<le> expo a then mant a * 2 ^ nat (expo a)
      else sgn (mant a) * (\<bar>mant a\<bar> div 2 ^ nat (- expo a)))"

section \<open>pkg/audio: resampling\<close>

text \<open>
  A slice access out of range panics in Go; the model returns \<open>IndexOutOfRange\<close>
  there. \<open>binary.LittleEndian.Uint16(input[idx*2:])\<close> needs \<open>0 \<le> idx*2\<close> and the two
  bytes at \<open>idx*2\<close> and \<open>idx*2 + 1\<close> inside the slice, and so does
  \<open>PutUint16(output[i*2:], v)\<close>.
\<close>

datatype audio_panic = IndexOutOfRange | RateNotPositive

definition Uint16 :: "byte \<Rightarrow> byte \<Rightarrow> 16 word" where
  "Uint16 b0 b1 = (ucast b0 :: 16 word) OR push_bit 8 (ucast b1 :: 16 word)"

definition readSample :: "byte list \<Rightarrow> int \<Rightarrow> audio_panic + int16" where
  "readSample input idx =
     (if 0 \<le> idx \<and> nat (idx * 2) + 1 < length input
      then Inr (Uint16 (input ! nat (idx * 2)) (input ! (nat (idx * 2) + 1)))
      else Inl IndexOutOfRange)"

definition putSample :: "byte list \<Rightarrow> nat \<Rightarrow> 16 word \<Rightarrow> audio_panic + byte list" where
  "putSample output i v =
     (if i * 2 + 1 < length output
      then Inr (output[i * 2 := ucast v, i * 2 + 1 := ucast (drop_bit 8 v)])
      else Inl IndexOutOfRange)"

text \<open>
  One turn of the loop of \<open>ResampleMono\<close>, for output index \<open>i\<close>: the source
  position, its integer part and fraction, the two clamped indices, the two samples
  read, the interpolated sample (converted to \<open>int16\<close> by truncation) and the write.
\<close>

definition resampleStep ::
  "byte list \<Rightarrow> float64 \<Rightarrow> int \<Rightarrow> nat \<Rightarrow> byte list \<Rightarrow> audio_panic + byte list" where
  "resampleStep input ratio inputSamples i output =
     (let srcPos = fdiv (f64_of_int (int i)) ratio;
          srcIdx = f64_trunc srcPos;
          frac = fsub srcPos (f64_of_int srcIdx);
          idx1 = (if srcIdx \<ge> inputSamples then inputSamples - 1 else srcIdx);
          idx2 = (if srcIdx + 1 \<ge> inputSamples then inputSamples - 1 else srcIdx + 1)
      in case readSample input idx1 of
           Inl e \<Rightarrow> Inl e
         | Inr s1 \<Rightarrow>
             (case readSample input idx2 of
                Inl e \<Rightarrow> Inl e
              | Inr s2 \<Rightarrow>
                  let sample = (word_of_int (f64_trunc
                        (fadd (fmul (f64_of_int (sint s1)) (fsub (f64_of_int 1) frac))
                              (fmul (f64_of_int (sint s2)) frac))) :: int16)
                  in putSample output i sample))"

fun resampleLoop ::
  "byte list \<Rightarrow> float64 \<Rightarrow> int \<Rightarrow> nat list \<Rightarrow> byte list \<Rightarrow> audio_panic + byte list" where
  "resampleLoop input ratio inputSamples [] output = Inr output"
| "resampleLoop input ratio inputSamples (i # rest) output =
     (case resampleStep input ratio inputSamples i output of
        Inl e \<Rightarrow> Inl e
      | Inr output' \<Rightarrow> resampleLoop input ratio inputSamples rest output')"

text \<open>
  \<open>ResampleMono\<close>. Equal rates return the input itself. The loop
  \<open>for i := 0; i < outputSamples; i++\<close> runs over \<open>[0..<outputSamples]\<close>. With a rate
  that is zero or negative the Go code divides by zero or asks \<open>make\<close> for a negative
  length; the model stops there with \<open>RateNotPositive\<close>.
\<close>

definition ResampleMono :: "byte list \<Rightarrow> int \<Rightarrow> int \<Rightarrow> audio_panic + byte list" where
  "ResampleMono input inputRate outputRate =
     (if inputRate = outputRate then Inr input
      else if inputRate \<le> 0 \<or> outputRate \<le> 0 then Inl RateNotPositive
      else
        let inputSamples = int (length input) div 2;
            ratio = fdiv (f64_of_int outputRate) (f64_of_int inputRate);
            outputSamples = f64_trunc (fmul (f64_of_int inputSamples) ratio);
            output = replicate (nat (outputSamples * 2)) (0 :: byte)
        in resampleLoop input ratio inputSamples [0..<nat outputSamples] output)"

section \<open>pkg/audio: the encoder and the pipeline\<close>

text \<open>
  The Opus encoder is a library outside the repository. It is a parameter of the model:
  a function from the encoder's state and one frame of samples to the encoded bytes, or
  \<open>None\<close> when the library reports an error, and the encoder's next state.
  \<open>EncodeBytes\<close> turns the bytes into little-endian \<open>int16\<close> samples and calls it.
\<close>

type_synonym 'e opus = "'e \<Rightarrow> int16 list \<Rightarrow> byte list option \<times> 'e"

fun pcmOfBytes :: "byte list \<Rightarrow> int16 list" where
  "pcmOfBytes (b0 # b1 # pcmBytes) = Uint16 b0 b1 # pcmOfBytes pcmBytes"
| "pcmOfBytes _ = []"

definition EncodeBytes :: "'e opus \<Rightarrow> 'e \<Rightarrow> byte list \<Rightarrow> byte list option \<times> 'e" where
  "EncodeBytes enc e pcmBytes = enc e (pcmOfBytes pcmBytes)"

record 'e AudioPipeline =
  encoder :: 'e
  buffer :: "byte list"

definition NewAudioPipeline :: "'e \<Rightarrow> 'e AudioPipeline" where
  "NewAudioPipeline e = \<lparr>encoder = e, buffer = []\<rparr>"

definition frameBytes :: nat where
  "frameBytes = 960 * 2 * 2"

text \<open>
  The loop \<open>for len(p.buffer) >= frameBytes\<close>, which \<open>ProcessChunk\<close> and \<open>Flush\<close>
  both contain: cut one frame off the front of the buffer and encode it; a frame the
  encoder refuses is skipped (\<open>continue\<close>), any other is appended to the result.
\<close>

function encodeFrames ::
  "'e opus \<Rightarrow> 'e AudioPipeline \<Rightarrow> byte list list \<Rightarrow> byte list list \<times> 'e AudioPipeline" where
  "encodeFrames enc p opusFrames =
     (if frameBytes \<le> length (buffer p) then
        (case EncodeBytes enc (encoder p) (take frameBytes (buffer p)) of
           (None, e') \<Rightarrow>
             encodeFrames enc \<lparr>encoder = e', buffer = drop frameBytes (buffer p)\<rparr> opusFrames
         | (Some opusData, e') \<Rightarrow>
             encodeFrames enc \<lparr>encoder = e', buffer = drop frameBytes (buffer p)\<rparr>
               (opusFrames @ [opusData]))
      else (opusFrames, p))"
  by pat_completeness auto
termination
  by (relation "measure (\<lambda>(enc, p, opusFrames). length (buffer p))")
    (auto simp: frameBytes_def)

declare encodeFrames.simps [simp del]

definition ProcessChunk ::
  "'e opus \<Rightarrow> byte list \<Rightarrow> 'e AudioPipeline
     \<Rightarrow> audio_panic + (byte list list \<times> 'e AudioPipeline)" where
  "ProcessChunk enc pcm22kMono p =
     (if length pcm22kMono = 0 then Inr ([], p)
      else
        case ResampleMono pcm22kMono 22050 48000 of
          Inl e \<Rightarrow> Inl e
        | Inr pcm48kMono \<Rightarrow>
            let pcm48kStereo = MonoToStereo pcm48kMono
            in Inr (encodeFrames enc (p\<lparr>buffer := buffer p @ pcm48kStereo\<rparr>) []))"

definition Flush :: "'e opus \<Rightarrow> 'e AudioPipeline \<Rightarrow> byte list list \<times> 'e AudioPipeline" where
  "Flush enc p =
     (if length (buffer p) > 0 then
        let padding = replicate (frameBytes - length (buffer p) mod frameBytes) (0 :: byte)
        in encodeFrames enc (p\<lparr>buffer := buffer p @ padding\<rparr>) []
      else ([], p))"

definition Reset :: "'e AudioPipeline \<Rightarrow> 'e AudioPipeline" where
  "Reset p = p\<lparr>buffer := []\<rparr>"

text \<open>
  The states a pipeline can be in: the fresh one, and whatever \<open>ProcessChunk\<close>,
  \<open>Flush\<close> and \<open>Reset\<close> make of a state it can be in. The buffer is private to the
  package and nothing else writes it.
\<close>

inductive reachable :: "'e opus \<Rightarrow> 'e AudioPipeline \<Rightarrow> bool" for enc :: "'e opus" where
  fresh: "reachable enc (NewAudioPipeline e)"
| chunk: "reachable enc p \<Longrightarrow> ProcessChunk enc pcm p = Inr (frames, p') \<Longrightarrow> reachable enc p'"
| flush: "reachable enc p \<Longrightarrow> Flush enc p = (frames, p') \<Longrightarrow> reachable enc p'"
| reset: "reachable enc p \<Longrightarrow> reachable enc (Reset p)"

text \<open>
  What the pipeline expects of the library: a frame of 960 samples per channel, two
  channels, is encoded without an error.
\<close>

definition encoder_accepts :: "'e opus \<Rightarrow> bool" where
  "encoder_accepts enc = (\<forall>e pcm. length pcm = 960 * 2 \<longrightarrow> fst (enc e pcm) \<noteq> None)"

section \<open>Channel conversion: the round trip\<close>

lemma sample_low_byte:
  "(ucast ((ucast (lo :: byte) :: int16) OR push_bit 8 (ucast (hi :: byte) :: int16)) :: byte) = lo"
  by (rule bit_word_eqI) (auto simp: bit_simps)

lemma sample_high_byte:
  "(ucast (signed_drop_bit 8
       ((ucast (lo :: byte) :: int16) OR push_bit 8 (ucast (hi :: byte) :: int16))) :: byte) = hi"
  by (rule bit_word_eqI) (auto simp: bit_simps dest: bit_imp_le_length)

lemma sint_scast_twice: "sint ((scast (s :: int16) :: int32) + scast s) = 2 * sint s"
proof -
  have b: "- (2 ^ 15) \<le> sint s" "sint s < 2 ^ 15"
    using sint_ge [of s] sint_lt [of s] by simp_all
  have "sint ((scast s :: int32) + scast s)
      = signed_take_bit 31 (sint (scast s :: int32) + sint (scast s :: int32))"
    by (simp add: sint_word_ariths)
  also have "sint (scast s :: int32) = sint s"
    by (simp add: sint_up_scast is_up)
  also have "signed_take_bit 31 (sint s + sint s) = sint s + sint s"
    using b by (intro signed_take_bit_int_eq_self) simp_all
  finally show ?thesis by simp
qed

lemma sdiv_two_times: "(2 * (x :: int)) sdiv 2 = x"
  by (simp add: signed_divide_int_def abs_mult sgn_mult mult_sgn_abs)

lemma average_same: "average s s = s"
proof -
  have "(ucast (word_of_int (sint s) :: int32) :: int16) = s"
    by (rule bit_word_eqI) (auto simp: bit_simps bit_sint_iff dest: bit_imp_le_length)
  then show ?thesis
    unfolding average_def Let_def sint_scast_twice sdiv_two_times .
qed

lemma length_MonoToStereo: "length (MonoToStereo m) = 4 * (length m div 2)"
  by (induction m rule: MonoToStereo.induct) simp_all

text \<open>
  Claim C8. For every mono 16-bit little-endian PCM byte string of even length,
  converting it to stereo with \<open>MonoToStereo\<close> and then averaging the left and the
  right channel (bytes to samples, average, samples to bytes) gives the input back,
  byte for byte.
\<close>

theorem MonoToStereo_average_roundtrip:
  "even (length m) \<Longrightarrow>
     samplesToBytes (averageChannels (bytesToSamples (MonoToStereo m))) = m"
  by (induction m rule: MonoToStereo.induct)
    (simp_all add: average_same sample_low_byte sample_high_byte)

theorem MonoToStereo_average_roundtrip_witness:
  "even (length [0x34, 0x12, 0x00, 0x80 :: byte]) \<and>
     samplesToBytes (averageChannels (bytesToSamples (MonoToStereo [0x34, 0x12, 0x00, 0x80])))
       = [0x34, 0x12, 0x00, 0x80 :: byte]"
  using MonoToStereo_average_roundtrip [of "[0x34, 0x12, 0x00, 0x80]"] by simp

section \<open>RTP send state: sequence numbers and timestamps\<close>

lemma WriteOpus_written:
  "audioTrack c \<Longrightarrow> WriteOpus True d c =
     (Inr \<lparr>Version = 2, Padding = False, Extension = False, Marker = False,
              PayloadType = 111, SequenceNumber = rtpSeqNum c, Timestamp = rtpTimestamp c,
              SSRC = 0x12345678, Payload = d\<rparr>,
      c\<lparr>rtpSeqNum := rtpSeqNum c + 1, rtpTimestamp := rtpTimestamp c + 960\<rparr>)"
  by (simp add: WriteOpus_def)

lemma WriteOpus_run_Cons_written:
  "audioTrack c \<Longrightarrow> fst (WriteOpus_run ((True, d) # calls) c) =
     \<lparr>Version = 2, Padding = False, Extension = False, Marker = False,
              PayloadType = 111, SequenceNumber = rtpSeqNum c, Timestamp = rtpTimestamp c,
              SSRC = 0x12345678, Payload = d\<rparr> #
     fst (WriteOpus_run calls
       (c\<lparr>rtpSeqNum := rtpSeqNum c + 1, rtpTimestamp := rtpTimestamp c + 960\<rparr>))"
  by (simp add: WriteOpus_written split: prod.splits)

lemma WriteOpus_run_length:
  "audioTrack c \<Longrightarrow> \<forall>call \<in> set calls. fst call \<Longrightarrow>
   length (fst (WriteOpus_run calls c)) = length calls"
proof (induction calls arbitrary: c)
  case Nil
  then show ?case by simp
next
  case (Cons call calls)
  obtain d where call: "call = (True, d)" using Cons.prems(2) by (cases call) auto
  show ?case
    unfolding call using Cons.prems
    by (simp add: WriteOpus_run_Cons_written Cons.IH del: WriteOpus_run.simps)
qed

lemma WriteOpus_run_nth:
  "audioTrack c \<Longrightarrow> \<forall>call \<in> set calls. fst call \<Longrightarrow> i < length calls \<Longrightarrow>
   SequenceNumber (fst (WriteOpus_run calls c) ! i) = rtpSeqNum c + of_nat i \<and>
   Timestamp (fst (WriteOpus_run calls c) ! i) = rtpTimestamp c + 960 * of_nat i \<and>
   Payload (fst (WriteOpus_run calls c) ! i) = snd (calls ! i)"
proof (induction calls arbitrary: c i)
  case Nil
  then show ?case by simp
next
  case (Cons call calls)
  obtain d where call: "call = (True, d)" using Cons.prems(2) by (cases call) auto
  let ?c' = "c\<lparr>rtpSeqNum := rtpSeqNum c + 1, rtpTimestamp := rtpTimestamp c + 960\<rparr>"
  have run: "fst (WriteOpus_run ((True, d) # calls) c) =
     \<lparr>Version = 2, Padding = False, Extension = False, Marker = False,
              PayloadType = 111, SequenceNumber = rtpSeqNum c, Timestamp = rtpTimestamp c,
              SSRC = 0x12345678, Payload = d\<rparr> # fst (WriteOpus_run calls ?c')"
    by (rule WriteOpus_run_Cons_written [OF Cons.prems(1)])
  show ?case
  proof (cases i)
    case 0
    then show ?thesis by (simp add: run call del: WriteOpus_run.simps)
  next
    case (Suc j)
    have tr: "audioTrack ?c'" using Cons.prems(1) by simp
    have all: "\<forall>call \<in> set calls. fst call" using Cons.prems(2) by simp
    have j: "j < length calls" using Cons.prems(3) Suc by simp
    note IH = Cons.IH [OF tr all j]
    have s: "rtpSeqNum c + 1 + of_nat j = rtpSeqNum c + of_nat (Suc j)" by simp
    have t: "rtpTimestamp c + 960 + 960 * of_nat j = rtpTimestamp c + 960 * of_nat (Suc j)"
      by (simp add: algebra_simps)
    show ?thesis
      using IH s t by (simp add: run call Suc del: WriteOpus_run.simps)
  qed
qed

text \<open>
  Claim C5. On a client whose audio track is set, a run of \<open>WriteOpus\<close> calls that all
  succeed emits one packet per call; packet \<open>i\<close> carries the initial sequence number
  plus \<open>i\<close> (a 16-bit word, so modulo \<open>2 ^ 16\<close>), the initial timestamp plus
  \<open>960 * i\<close> (a 32-bit word, so modulo \<open>2 ^ 32\<close>) and the payload of call \<open>i\<close>
  unchanged. Hence from each packet to the next the sequence number grows by exactly 1
  modulo \<open>2 ^ 16\<close> and the timestamp by exactly 960 modulo \<open>2 ^ 32\<close>.
\<close>

theorem WriteOpus_sequence_contiguous:
  assumes "audioTrack c" and "\<forall>call \<in> set calls. fst call"
  shows "length (fst (WriteOpus_run calls c)) = length calls \<and>
    (\<forall>i < length calls.
       SequenceNumber (fst (WriteOpus_run calls c) ! i) = rtpSeqNum c + of_nat i \<and>
       Timestamp (fst (WriteOpus_run calls c) ! i) = rtpTimestamp c + 960 * of_nat i \<and>
       Payload (fst (WriteOpus_run calls c) ! i) = snd (calls ! i)) \<and>
    (\<forall>i. Suc i < length calls \<longrightarrow>
       unat (SequenceNumber (fst (WriteOpus_run calls c) ! Suc i))
         = (unat (SequenceNumber (fst (WriteOpus_run calls c) ! i)) + 1) mod 2 ^ 16 \<and>
       unat (Timestamp (fst (WriteOpus_run calls c) ! Suc i))
         = (unat (Timestamp (fst (WriteOpus_run calls c) ! i)) + 960) mod 2 ^ 32)"
proof (intro conjI allI impI)
  show "length (fst (WriteOpus_run calls c)) = length calls"
    by (rule WriteOpus_run_length [OF assms])
next
  fix i assume "i < length calls"
  from WriteOpus_run_nth [OF assms this]
  show "SequenceNumber (fst (WriteOpus_run calls c) ! i) = rtpSeqNum c + of_nat i"
    and "Timestamp (fst (WriteOpus_run calls c) ! i) = rtpTimestamp c + 960 * of_nat i"
    and "Payload (fst (WriteOpus_run calls c) ! i) = snd (calls ! i)"
    by simp_all
next
  fix i assume i: "Suc i < length calls"
  then have i': "i < length calls" by simp
  have "SequenceNumber (fst (WriteOpus_run calls c) ! Suc i)
      = SequenceNumber (fst (WriteOpus_run calls c) ! i) + 1"
    using WriteOpus_run_nth [OF assms i] WriteOpus_run_nth [OF assms i'] by simp
  then show "unat (SequenceNumber (fst (WriteOpus_run calls c) ! Suc i))
      = (unat (SequenceNumber (fst (WriteOpus_run calls c) ! i)) + 1) mod 2 ^ 16"
    by (simp add: unat_word_ariths)
next
  fix i assume i: "Suc i < length calls"
  then have i': "i < length calls" by simp
  have "Timestamp (fst (WriteOpus_run calls c) ! Suc i)
      = Timestamp (fst (WriteOpus_run calls c) ! i) + 960"
    using WriteOpus_run_nth [OF assms i] WriteOpus_run_nth [OF assms i']
    by (simp add: algebra_simps)
  then show "unat (Timestamp (fst (WriteOpus_run calls c) ! Suc i))
      = (unat (Timestamp (fst (WriteOpus_run calls c) ! i)) + 960) mod 2 ^ 32"
    by (simp add: unat_word_ariths)
qed

theorem WriteOpus_sequence_contiguous_witness:
  "audioTrack (NewClient\<lparr>audioTrack := True, rtpSeqNum := 65535\<rparr>) \<and>
   list_all fst [(True, [1 :: byte]), (True, [2])] \<and>
   map SequenceNumber
     (fst (WriteOpus_run [(True, [1]), (True, [2])]
        (NewClient\<lparr>audioTrack := True, rtpSeqNum := 65535\<rparr>))) = [65535, 0] \<and>
   map Timestamp
     (fst (WriteOpus_run [(True, [1]), (True, [2])]
        (NewClient\<lparr>audioTrack := True, rtpSeqNum := 65535\<rparr>))) = [0, 960]"
  using WriteOpus_sequence_contiguous
    [of "NewClient\<lparr>audioTrack := True, rtpSeqNum := 65535\<rparr>" "[(True, [1]), (True, [2])]"]
  by (simp add: NewClient_def WriteOpus_def)

section \<open>binary64 arithmetic: signs\<close>

lemma mant_round53_nonneg: "0 \<le> m \<Longrightarrow> 0 \<le> mant (round53 m e)"
  by (auto simp: round53_def Let_def sgn_if div_int_pos_iff intro!: add_nonneg_nonneg)

lemma mant_f64_of_int_nonneg: "0 \<le> n \<Longrightarrow> 0 \<le> mant (f64_of_int n)"
  by (simp add: f64_of_int_def mant_round53_nonneg)

lemma mant_fmul_nonneg: "0 \<le> mant a \<Longrightarrow> 0 \<le> mant b \<Longrightarrow> 0 \<le> mant (fmul a b)"
  by (simp add: fmul_def mant_round53_nonneg)

lemma mant_fdiv_nonneg: "0 \<le> mant a \<Longrightarrow> 0 \<le> mant b \<Longrightarrow> 0 \<le> mant (fdiv a b)"
proof -
  assume a: "0 \<le> mant a" and b: "0 \<le> mant b"
  have "0 \<le> sgn (mant a) * sgn (mant b) * (2 * (\<bar>mant a\<bar> * 2 ^ (55 + bitLen \<bar>mant b\<bar>) div \<bar>mant b\<bar>)
      + (if \<bar>mant a\<bar> * 2 ^ (55 + bitLen \<bar>mant b\<bar>) mod \<bar>mant b\<bar> = 0 then 0 else 1))"
    using a b by (intro mult_nonneg_nonneg add_nonneg_nonneg) (auto simp: sgn_if div_int_pos_iff)
  then show ?thesis
    unfolding fdiv_def Let_def by (rule mant_round53_nonneg)
qed

lemma f64_trunc_nonneg: "0 \<le> mant a \<Longrightarrow> 0 \<le> f64_trunc a"
  by (auto simp: f64_trunc_def sgn_if div_int_pos_iff)

lemma f64_trunc_zero: "mant a = 0 \<Longrightarrow> f64_trunc a = 0"
  by (simp add: f64_trunc_def)

lemma round53_zero: "round53 0 e = F64 0 e"
  by (simp add: round53_def bitLen.simps)

lemma readSample_in_range:
  "0 \<le> idx \<Longrightarrow> idx < inputSamples \<Longrightarrow> inputSamples = int (length input) div 2
   \<Longrightarrow> \<exists>s. readSample input idx = Inr s"
  by (auto simp: readSample_def)

lemma putSample_in_range:
  "i * 2 + 1 < length output \<Longrightarrow> \<exists>out. putSample output i v = Inr out \<and> length out = length output"
  by (simp add: putSample_def)

lemma resampleStep_no_panic:
  assumes "0 \<le> mant ratio" and "0 < inputSamples" and "inputSamples = int (length input) div 2"
    and "i * 2 + 1 < length output"
  shows "\<exists>out. resampleStep input ratio inputSamples i output = Inr out \<and> length out = length output"
proof -
  define srcIdx where "srcIdx = f64_trunc (fdiv (f64_of_int (int i)) ratio)"
  have nn: "0 \<le> srcIdx"
    unfolding srcIdx_def
    by (intro f64_trunc_nonneg mant_fdiv_nonneg mant_f64_of_int_nonneg assms(1)) simp
  define idx1 where "idx1 = (if srcIdx \<ge> inputSamples then inputSamples - 1 else srcIdx)"
  define idx2 where "idx2 = (if srcIdx + 1 \<ge> inputSamples then inputSamples - 1 else srcIdx + 1)"
  have r1: "0 \<le> idx1" "idx1 < inputSamples" using nn assms(2) by (auto simp: idx1_def)
  have r2: "0 \<le> idx2" "idx2 < inputSamples" using nn assms(2) by (auto simp: idx2_def)
  obtain s1 where s1: "readSample input idx1 = Inr s1"
    using readSample_in_range [OF r1 assms(3)] by blast
  obtain s2 where s2: "readSample input idx2 = Inr s2"
    using readSample_in_range [OF r2 assms(3)] by blast
  define smp :: "int16 \<Rightarrow> int16 \<Rightarrow> int16" where "smp = (\<lambda>s1 s2. word_of_int (f64_trunc
      (fadd (fmul (f64_of_int (sint s1))
               (fsub (f64_of_int 1)
                  (fsub (fdiv (f64_of_int (int i)) ratio) (f64_of_int srcIdx))))
            (fmul (f64_of_int (sint s2))
               (fsub (fdiv (f64_of_int (int i)) ratio) (f64_of_int srcIdx))))))"
  have step: "resampleStep input ratio inputSamples i output =
      (case readSample input idx1 of
         Inl e \<Rightarrow> Inl e
       | Inr s1 \<Rightarrow>
           (case readSample input idx2 of
              Inl e \<Rightarrow> Inl e
            | Inr s2 \<Rightarrow> putSample output i (smp s1 s2)))"
    by (simp add: resampleStep_def Let_def srcIdx_def idx1_def idx2_def smp_def split: sum.splits)
  show ?thesis
    unfolding step using s1 s2 putSample_in_range [OF assms(4)] by simp
qed

lemma resampleLoop_no_panic:
  assumes "0 \<le> mant ratio" and "0 < inputSamples" and "inputSamples = int (length input) div 2"
    and "\<forall>i \<in> set idxs. i * 2 + 1 < length outp"
  shows "\<exists>out. resampleLoop input ratio inputSamples idxs outp = Inr out \<and> length out = length outp"
  using assms(4)
proof (induction idxs arbitrary: outp)
  case Nil
  then show ?case by simp
next
  case (Cons i idxs)
  have "i * 2 + 1 < length outp" using Cons.prems by simp
  from resampleStep_no_panic [OF assms(1-3) this]
  obtain out where out: "resampleStep input ratio inputSamples i outp = Inr out"
    and len: "length out = length outp" by blast
  have "\<forall>i \<in> set idxs. i * 2 + 1 < length out" using Cons.prems len by simp
  from Cons.IH [OF this] show ?case using out len by simp
qed

lemma ResampleMono_no_panic:
  assumes "0 < inputRate" and "0 < outputRate" and "inputRate \<noteq> outputRate"
  shows "\<exists>out. ResampleMono input inputRate outputRate = Inr out \<and>
     length out = nat (f64_trunc (fmul (f64_of_int (int (length input) div 2))
         (fdiv (f64_of_int outputRate) (f64_of_int inputRate))) * 2)"
proof -
  define inputSamples where "inputSamples = int (length input) div 2"
  define ratio where "ratio = fdiv (f64_of_int outputRate) (f64_of_int inputRate)"
  define outputSamples where "outputSamples = f64_trunc (fmul (f64_of_int inputSamples) ratio)"
  have ratio: "0 \<le> mant ratio"
    unfolding ratio_def using assms by (intro mant_fdiv_nonneg mant_f64_of_int_nonneg) simp_all
  have R: "ResampleMono input inputRate outputRate =
      resampleLoop input ratio inputSamples [0..<nat outputSamples]
        (replicate (nat (outputSamples * 2)) 0)"
    using assms by (simp add: ResampleMono_def Let_def inputSamples_def ratio_def outputSamples_def)
  have "\<exists>out. resampleLoop input ratio inputSamples [0..<nat outputSamples]
        (replicate (nat (outputSamples * 2)) 0) = Inr out \<and> length out = nat (outputSamples * 2)"
  proof (cases "0 < inputSamples")
    case True
    have idx: "\<forall>i \<in> set [0..<nat outputSamples].
        i * 2 + 1 < length (replicate (nat (outputSamples * 2)) (0 :: byte))"
      by (auto simp: nat_mult_distrib)
    from resampleLoop_no_panic [OF ratio True inputSamples_def idx]
    show ?thesis by simp
  next
    case False
    then have z: "inputSamples = 0" unfolding inputSamples_def by simp
    have "outputSamples = 0"
      unfolding outputSamples_def z
      by (simp add: f64_of_int_def fmul_def round53_zero f64_trunc_zero)
    then show ?thesis by simp
  qed
  then show ?thesis
    by (simp add: R outputSamples_def ratio_def inputSamples_def)
qed

lemma outputSamples_22050_48000:
  "f64_trunc (fmul (f64_of_int 22050) (fdiv (f64_of_int 48000) (f64_of_int 22050))) = 48000"
  by code_simp

section \<open>The frame loop\<close>

lemma length_pcmOfBytes: "length (pcmOfBytes bs) = length bs div 2"
  by (induction bs rule: pcmOfBytes.induct) simp_all

lemma EncodeBytes_accepts:
  "encoder_accepts enc \<Longrightarrow> length frame = frameBytes \<Longrightarrow> \<exists>d e'. EncodeBytes enc e frame = (Some d, e')"
  unfolding encoder_accepts_def EncodeBytes_def
  by (metis length_pcmOfBytes frameBytes_def prod.collapse not_Some_eq
        div_mult_self1_is_m mult.commute zero_less_numeral nonzero_mult_div_cancel_right numeral_neq_zero)

lemma encodeFrames_buffer:
  "length (buffer (snd (encodeFrames enc p acc))) = length (buffer p) mod frameBytes"
proof (induction enc p acc rule: encodeFrames.induct)
  case (1 enc p opusFrames)
  show ?case
  proof (cases "frameBytes \<le> length (buffer p)")
    case True
    obtain r e' where enc: "EncodeBytes enc (encoder p) (take frameBytes (buffer p)) = (r, e')"
      by (cases "EncodeBytes enc (encoder p) (take frameBytes (buffer p))")
    show ?thesis
    proof (cases r)
      case None
      with 1(1) [OF True enc [symmetric]] True enc show ?thesis
        by (subst encodeFrames.simps) (simp add: le_mod_geq)
    next
      case (Some d)
      with 1(2) [OF True enc [symmetric]] True enc show ?thesis
        by (subst encodeFrames.simps) (simp add: le_mod_geq)
    qed
  next
    case False
    then show ?thesis by (subst encodeFrames.simps) simp
  qed
qed

lemma encodeFrames_count_le:
  "length (fst (encodeFrames enc p acc)) \<le> length acc + length (buffer p) div frameBytes"
proof (induction enc p acc rule: encodeFrames.induct)
  case (1 enc p opusFrames)
  show ?case
  proof (cases "frameBytes \<le> length (buffer p)")
    case True
    have d: "length (buffer p) div frameBytes = Suc ((length (buffer p) - frameBytes) div frameBytes)"
      using True by (simp add: le_div_geq frameBytes_def)
    obtain r e' where enc: "EncodeBytes enc (encoder p) (take frameBytes (buffer p)) = (r, e')"
      by (cases "EncodeBytes enc (encoder p) (take frameBytes (buffer p))")
    show ?thesis
    proof (cases r)
      case None
      with 1(1) [OF True enc [symmetric]] True enc d show ?thesis
        by (subst encodeFrames.simps) simp
    next
      case (Some x)
      with 1(2) [OF True enc [symmetric]] True enc d show ?thesis
        by (subst encodeFrames.simps) simp
    qed
  next
    case False
    then show ?thesis by (subst encodeFrames.simps) simp
  qed
qed

lemma encodeFrames_count:
  "encoder_accepts enc \<Longrightarrow>
   length (fst (encodeFrames enc p acc)) = length acc + length (buffer p) div frameBytes"
proof (induction enc p acc rule: encodeFrames.induct)
  case (1 enc p opusFrames)
  show ?case
  proof (cases "frameBytes \<le> length (buffer p)")
    case True
    have d: "length (buffer p) div frameBytes = Suc ((length (buffer p) - frameBytes) div frameBytes)"
      using True by (simp add: le_div_geq frameBytes_def)
    have "length (take frameBytes (buffer p)) = frameBytes" using True by simp
    from EncodeBytes_accepts [OF 1(3) this]
    obtain x e' where enc: "EncodeBytes enc (encoder p) (take frameBytes (buffer p)) = (Some x, e')"
      by blast
    from 1(2) [OF True enc [symmetric] refl 1(3)] True enc d show ?thesis
      by (subst encodeFrames.simps) simp
  next
    case False
    then show ?thesis by (subst encodeFrames.simps) simp
  qed
qed

lemma encodeFrames_one_frame:
  "length (buffer p) = frameBytes \<Longrightarrow>
   encodeFrames enc p [] =
     (case EncodeBytes enc (encoder p) (buffer p) of
        (None, e') \<Rightarrow> ([], \<lparr>encoder = e', buffer = []\<rparr>)
      | (Some opusData, e') \<Rightarrow> ([opusData], \<lparr>encoder = e', buffer = []\<rparr>))"
  by (subst encodeFrames.simps)
    (auto split: prod.splits option.splits simp: encodeFrames.simps [of _ "\<lparr>encoder = _, buffer = []\<rparr>"] frameBytes_def)

lemma Flush_partial:
  assumes "0 < length (buffer p)" and "length (buffer p) < frameBytes"
  shows "Flush enc p =
     (case EncodeBytes enc (encoder p) (buffer p @ replicate (frameBytes - length (buffer p)) 0) of
        (None, e') \<Rightarrow> ([], \<lparr>encoder = e', buffer = []\<rparr>)
      | (Some opusData, e') \<Rightarrow> ([opusData], \<lparr>encoder = e', buffer = []\<rparr>))"
  using assms by (simp add: Flush_def encodeFrames_one_frame)

lemma pad_to_frame: "0 < F \<Longrightarrow> (n + (F - n mod F)) mod F = (0 :: nat)"
proof -
  assume F: "0 < F"
  then have lt: "n mod F < F" by simp
  have "n = F * (n div F) + n mod F" by simp
  with lt have "n + (F - n mod F) = F * (n div F) + F" by linarith
  then show ?thesis by simp
qed

lemma Flush_buffer_empty: "buffer (snd (Flush enc p)) = []"
proof (cases "0 < length (buffer p)")
  case True
  have "length (buffer (snd (Flush enc p)))
      = (length (buffer p) + (frameBytes - length (buffer p) mod frameBytes)) mod frameBytes"
    using True by (simp add: Flush_def Let_def encodeFrames_buffer)
  also have "\<dots> = 0"
    by (rule pad_to_frame) (simp add: frameBytes_def)
  finally show ?thesis by simp
next
  case False
  then show ?thesis by (simp add: Flush_def)
qed

lemma reachable_buffer: "reachable enc p \<Longrightarrow> length (buffer p) < frameBytes"
proof (induction rule: reachable.induct)
  case (fresh e)
  then show ?case by (simp add: NewAudioPipeline_def frameBytes_def)
next
  case (chunk p pcm frames p')
  then show ?case
    by (auto simp: ProcessChunk_def Let_def frameBytes_def split: if_splits sum.splits
        dest!: arg_cong [where f = "\<lambda>r. length (buffer (snd r))"] simp: encodeFrames_buffer)
next
  case (flush p frames p')
  then show ?case using Flush_buffer_empty [of enc p] by (simp add: frameBytes_def)
next
  case (reset p)
  then show ?case by (simp add: Reset_def frameBytes_def)
qed

section \<open>The pipeline: Flush, Reset and the buffer invariant\<close>

lemma ProcessChunk_returns:
  "\<exists>frames p'. ProcessChunk enc pcm p = Inr (frames, p')"
proof (cases "length pcm = 0")
  case True
  then show ?thesis by (simp add: ProcessChunk_def)
next
  case False
  obtain out where "ResampleMono pcm 22050 48000 = Inr out"
    using ResampleMono_no_panic [of 22050 48000 pcm] by auto
  with False show ?thesis
    by (simp add: ProcessChunk_def Let_def prod_eq_iff)
qed

text \<open>
  Claim C6. In every state the pipeline can be in, \<open>Flush\<close> on a non-empty buffer
  pads the buffered bytes with zeros to one frame of 3,840 bytes, hands that frame to the
  encoder and, when the encoder returns it encoded, emits exactly that one frame; on an
  empty buffer it emits nothing. Either way the buffer is empty afterwards and at most
  one frame has been emitted. \<open>Reset\<close> only empties the buffer (it returns no frame
  and does not touch the encoder), so a \<open>Flush\<close> followed by a \<open>Reset\<close> emits at most
  one frame, and the \<open>Reset\<close> after a \<open>Flush\<close> changes nothing.
\<close>

theorem Flush_emits_one_padded_frame:
  assumes "reachable enc p"
  shows "(buffer p \<noteq> [] \<longrightarrow>
           length (buffer p @ replicate (frameBytes - length (buffer p)) 0) = 3840 \<and>
           (\<forall>opusData e'.
              EncodeBytes enc (encoder p)
                  (buffer p @ replicate (frameBytes - length (buffer p)) 0) = (Some opusData, e')
              \<longrightarrow> Flush enc p = ([opusData], \<lparr>encoder = e', buffer = []\<rparr>))) \<and>
         (buffer p = [] \<longrightarrow> Flush enc p = ([], p)) \<and>
         buffer (snd (Flush enc p)) = [] \<and>
         length (fst (Flush enc p)) \<le> 1 \<and>
         Reset p = p\<lparr>buffer := []\<rparr> \<and>
         Reset (snd (Flush enc p)) = snd (Flush enc p)"
proof -
  have lt: "length (buffer p) < frameBytes"
    by (rule reachable_buffer [OF assms])
  have one: "buffer p \<noteq> [] \<longrightarrow>
           length (buffer p @ replicate (frameBytes - length (buffer p)) 0) = 3840 \<and>
           (\<forall>opusData e'.
              EncodeBytes enc (encoder p)
                  (buffer p @ replicate (frameBytes - length (buffer p)) 0) = (Some opusData, e')
              \<longrightarrow> Flush enc p = ([opusData], \<lparr>encoder = e', buffer = []\<rparr>))"
  proof (intro impI conjI allI)
    assume "buffer p \<noteq> []"
    show "length (buffer p @ replicate (frameBytes - length (buffer p)) 0) = 3840"
      using lt by (simp add: frameBytes_def)
  next
    fix opusData e'
    assume ne: "buffer p \<noteq> []"
      and enc: "EncodeBytes enc (encoder p)
                  (buffer p @ replicate (frameBytes - length (buffer p)) 0) = (Some opusData, e')"
    from ne have "0 < length (buffer p)" by simp
    from Flush_partial [OF this lt, of enc] enc
    show "Flush enc p = ([opusData], \<lparr>encoder = e', buffer = []\<rparr>)" by simp
  qed
  have none: "buffer p = [] \<longrightarrow> Flush enc p = ([], p)"
    by (simp add: Flush_def)
  have empty: "buffer (snd (Flush enc p)) = []"
    by (rule Flush_buffer_empty)
  have le: "length (fst (Flush enc p)) \<le> 1"
  proof (cases "buffer p = []")
    case True
    then show ?thesis by (simp add: Flush_def)
  next
    case False
    then have "0 < length (buffer p)" by simp
    from Flush_partial [OF this lt, of enc] show ?thesis
      by (simp split: prod.splits option.splits)
  qed
  have r1: "Reset p = p\<lparr>buffer := []\<rparr>" by (simp add: Reset_def)
  have r2: "Reset (snd (Flush enc p)) = snd (Flush enc p)"
    using empty by (simp add: Reset_def)
  from one none empty le r1 r2 show ?thesis by blast
qed

lemma pc0: "ProcessChunk (\<lambda>e pcm. (Some [1 :: byte], e)) [1,2] (NewAudioPipeline ())
   = Inr ([], \<lparr>encoder = (), buffer = [1, 2, 1, 2, 1, 2, 1, 2]\<rparr>)"
  by code_simp

theorem Flush_emits_one_padded_frame_witness:
  "reachable (\<lambda>e pcm. (Some [1 :: byte], e)) \<lparr>encoder = (), buffer = [1, 2, 1, 2, 1, 2, 1, 2]\<rparr> \<and>
   buffer \<lparr>encoder = (), buffer = [1, 2, 1, 2, 1, 2, 1, 2 :: byte]\<rparr> \<noteq> [] \<and>
   Flush (\<lambda>e pcm. (Some [1 :: byte], e)) \<lparr>encoder = (), buffer = [1, 2, 1, 2, 1, 2, 1, 2]\<rparr>
     = ([[1]], \<lparr>encoder = (), buffer = []\<rparr>)"
proof -
  have r: "reachable (\<lambda>(e :: unit) pcm. (Some [1 :: byte], e))
      \<lparr>encoder = (), buffer = [1, 2, 1, 2, 1, 2, 1, 2]\<rparr>"
    by (rule reachable.chunk [OF reachable.fresh pc0])
  from Flush_emits_one_padded_frame [OF r] r show ?thesis
    by (simp add: EncodeBytes_def)
qed

text \<open>
  Claim C10. In every state the pipeline can be in the buffer holds fewer than 3,840
  bytes. \<open>ProcessChunk\<close> returns for every input and leaves fewer than 3,840 bytes,
  \<open>Flush\<close> and \<open>Reset\<close> leave the buffer empty. \<open>Flush\<close> emits at most one frame
  more than the buffer holds whole frames, which under the invariant is at most one.
\<close>

theorem pipeline_buffer_below_frame:
  assumes "reachable enc p"
  shows "length (buffer p) < 3840 \<and>
         (\<forall>pcm. \<exists>frames p'. ProcessChunk enc pcm p = Inr (frames, p') \<and> length (buffer p') < 3840) \<and>
         buffer (snd (Flush enc p)) = [] \<and>
         buffer (Reset p) = [] \<and>
         length (fst (Flush enc p)) \<le> length (buffer p) div 3840 + 1 \<and>
         length (fst (Flush enc p)) \<le> 1"
proof -
  have lt: "length (buffer p) < 3840"
    using reachable_buffer [OF assms] by (simp add: frameBytes_def)
  have chunk: "\<forall>pcm. \<exists>frames p'. ProcessChunk enc pcm p = Inr (frames, p') \<and> length (buffer p') < 3840"
  proof
    fix pcm
    obtain frames p' where pc: "ProcessChunk enc pcm p = Inr (frames, p')"
      using ProcessChunk_returns by blast
    have "reachable enc p'" by (rule reachable.chunk [OF assms pc])
    then have "length (buffer p') < 3840"
      using reachable_buffer by (fastforce simp: frameBytes_def)
    with pc show "\<exists>frames p'. ProcessChunk enc pcm p = Inr (frames, p') \<and> length (buffer p') < 3840"
      by blast
  qed
  have fl: "length (fst (Flush enc p)) \<le> length (buffer p) div 3840 + 1"
  proof (cases "0 < length (buffer p)")
    case True
    have "length (fst (Flush enc p))
        \<le> (length (buffer p) + (frameBytes - length (buffer p) mod frameBytes)) div frameBytes"
      using True encodeFrames_count_le [of enc "p\<lparr>buffer := buffer p @
          replicate (frameBytes - length (buffer p) mod frameBytes) 0\<rparr>" "[]"]
      by (simp add: Flush_def Let_def)
    also have "\<dots> \<le> length (buffer p) div 3840 + 1"
      using lt by (simp add: frameBytes_def)
    finally show ?thesis .
  next
    case False
    then show ?thesis by (simp add: Flush_def)
  qed
  from lt chunk fl show ?thesis
    by (simp add: Flush_buffer_empty Reset_def)
qed

theorem pipeline_buffer_below_frame_witness:
  "reachable (\<lambda>e pcm. (Some [1 :: byte], e)) \<lparr>encoder = (), buffer = [1, 2, 1, 2, 1, 2, 1, 2]\<rparr> \<and>
   length (buffer \<lparr>encoder = (), buffer = [1, 2, 1, 2, 1, 2, 1, 2 :: byte]\<rparr>) < 3840 \<and>
   buffer (snd (Flush (\<lambda>e pcm. (Some [1 :: byte], e))
      \<lparr>encoder = (), buffer = [1, 2, 1, 2, 1, 2, 1, 2]\<rparr>)) = []"
proof -
  have r: "reachable (\<lambda>(e :: unit) pcm. (Some [1 :: byte], e))
      \<lparr>encoder = (), buffer = [1, 2, 1, 2, 1, 2, 1, 2]\<rparr>"
    by (rule reachable.chunk [OF reachable.fresh pc0])
  from pipeline_buffer_below_frame [OF r] r show ?thesis
    by simp
qed

text \<open>
  Claim C7. 44,100 bytes (22,050 mono samples of 16 bits) given to \<open>ProcessChunk\<close> on a
  fresh pipeline, followed by \<open>Flush\<close>, give exactly 50 frames in total when the
  encoder accepts every frame: the resampler computes
  \<open>int(22050 * (48000 / 22050)) = 48000\<close> output samples in binary64, the stereo
  buffer holds 192,000 bytes, \<open>ProcessChunk\<close> emits all 50 frames and \<open>Flush\<close> finds
  the buffer empty.
\<close>

theorem one_second_gives_50_frames:
  assumes "length pcm = 44100" and "encoder_accepts enc"
  shows "\<exists>frames p'. ProcessChunk enc pcm (NewAudioPipeline e) = Inr (frames, p') \<and>
           length frames = 50 \<and> fst (Flush enc p') = [] \<and>
           length frames + length (fst (Flush enc p')) = 50"
proof -
  have half: "int (length pcm) div 2 = 22050" using assms(1) by simp
  obtain out where out: "ResampleMono pcm 22050 48000 = Inr out"
    and len: "length out = 96000"
    using ResampleMono_no_panic [of 22050 48000 pcm]
    unfolding half outputSamples_22050_48000 by auto
  have st: "length (MonoToStereo out) = 192000"
    by (simp add: length_MonoToStereo len)
  define p1 where "p1 = (NewAudioPipeline e)\<lparr>buffer := buffer (NewAudioPipeline e) @ MonoToStereo out\<rparr>"
  have b1: "length (buffer p1) = 192000"
    by (simp add: p1_def NewAudioPipeline_def st)
  have pc: "ProcessChunk enc pcm (NewAudioPipeline e) = Inr (encodeFrames enc p1 [])"
    using assms(1) out by (simp add: ProcessChunk_def Let_def p1_def)
  have n: "length (fst (encodeFrames enc p1 [])) = 50"
    using encodeFrames_count [OF assms(2), of p1 "[]"] b1 by (simp add: frameBytes_def)
  have "length (buffer (snd (encodeFrames enc p1 []))) = 0"
    using encodeFrames_buffer [of enc p1 "[]"] b1 by (simp add: frameBytes_def)
  then have fl: "fst (Flush enc (snd (encodeFrames enc p1 []))) = []"
    by (simp add: Flush_def)
  show ?thesis
    using pc n fl by (intro exI [of _ "fst (encodeFrames enc p1 [])"] exI [of _ "snd (encodeFrames enc p1 [])"]) simp
qed

theorem one_second_gives_50_frames_witness:
  "length (replicate 44100 (0 :: byte)) = 44100 \<and>
   encoder_accepts (\<lambda>(e :: unit) pcm. (Some [1 :: byte], e)) \<and>
   (\<exists>frames p'. ProcessChunk (\<lambda>e pcm. (Some [1 :: byte], e)) (replicate 44100 0) (NewAudioPipeline ())
        = Inr (frames, p') \<and>
      length frames + length (fst (Flush (\<lambda>e pcm. (Some [1 :: byte], e)) p')) = 50)"
proof -
  have l: "length (replicate 44100 (0 :: byte)) = 44100" by simp
  have a: "encoder_accepts (\<lambda>(e :: unit) pcm. (Some [1 :: byte], e))"
    by (simp add: encoder_accepts_def)
  from one_second_gives_50_frames [OF l a, of "()"] l a show ?thesis by blast
qed




end
